theory Spec2Isabelle
  imports Main "HOL-Library.Multiset"
begin

section \<open>Beans puzzle: data model\<close>

text \<open>
  The game keeps its state in module-level variables. Positions are the objects
  \<^verbatim>\<open>{row, col}\<close>; coordinates are integers because the code computes
  \<^verbatim>\<open>current.row - 1\<close> before it tests the bounds.
\<close>

record pos =
  row :: int
  col :: int

text \<open>\<^verbatim>\<open>let gridSize = 8\<close>: assigned once, read everywhere.\<close>

definition gridSize :: nat where
  "gridSize = 8"

text \<open>
  Two positions touch when both distances are at most one
  (\<^verbatim>\<open>rowDiff <= 1 && colDiff <= 1\<close>), the test shared by
  \<^verbatim>\<open>isValidPlacement\<close>, \<^verbatim>\<open>checkSolution\<close> and \<^verbatim>\<open>countSolutions\<close>.
\<close>

definition touching :: "int \<Rightarrow> int \<Rightarrow> int \<Rightarrow> int \<Rightarrow> bool" where
  "touching r1 c1 r2 c2 = (\<bar>r1 - r2\<bar> \<le> 1 \<and> \<bar>c1 - c2\<bar> \<le> 1)"

section \<open>isValidPlacement\<close>

text \<open>
  \<^verbatim>\<open>for (const bean of existingBeans) { ... if (rowDiff <= 1 && colDiff <= 1) return false; }
  return true;\<close>
\<close>

fun isValidPlacement :: "int \<Rightarrow> int \<Rightarrow> ('a pos_scheme) list \<Rightarrow> bool" where
  "isValidPlacement r c [] = True"
| "isValidPlacement r c (bean # existingBeans) =
     (let rowDiff = \<bar>row bean - r\<bar>; colDiff = \<bar>col bean - c\<bar>
      in if rowDiff \<le> 1 \<and> colDiff \<le> 1 then False
         else isValidPlacement r c existingBeans)"

text \<open>
  C5. \<^verbatim>\<open>isValidPlacement(row, col, existingBeans)\<close> returns false exactly when some
  existing bean lies within one row and one column of the candidate; a bean on the
  candidate cell itself (both distances zero) is such a bean.
\<close>

theorem isValidPlacement_false_iff:
  "(isValidPlacement r c existingBeans = False) =
     (\<exists>bean. bean \<in> set existingBeans \<and> \<bar>row bean - r\<bar> \<le> 1 \<and> \<bar>col bean - c\<bar> \<le> 1)"
  by (induction existingBeans) (auto simp: Let_def)

section \<open>Module state\<close>

text \<open>
  A placed bean also records the region of its cell:
  \<^verbatim>\<open>beansPlaced.push({ row, col, region: regionIndex })\<close>. A region value read from
  the array may be \<^verbatim>\<open>undefined\<close>, hence the option.
\<close>

record bean = pos +
  region :: "int option"

text \<open>What \<^verbatim>\<open>console.error\<close> and \<^verbatim>\<open>console.warn\<close> print, as data.\<close>

datatype logEntry =
    FailedToGenerateSolution
  | MultipleBeansInRow int
  | MultipleBeansInColumn int
  | BeansTouching pos pos
  | MaxRegenerationAttempts
  | GrowthStalled
  | RegionNotConnected nat nat

text \<open>What \<^verbatim>\<open>showMessage\<close> displays, as data.\<close>

datatype uiMessage =
    PlaceAllBeansFirst nat
  | Congratulations
  | FoundErrors nat

text \<open>
  A JavaScript array is read and written at any index: it is a partial map from
  indices to values, and a missing entry reads as \<^verbatim>\<open>undefined\<close> (\<open>None\<close>).
  \<open>rng\<close> counts the calls of \<^verbatim>\<open>Math.random\<close> made so far.
\<close>

type_synonym regionArray = "int \<Rightarrow> int option"

record game =
  regions :: regionArray
  beansPlaced :: "bean list"
  xMarkers :: "pos list"
  autoXMarkers :: "pos list"
  solution :: "pos list"
  gameActive :: bool
  message :: "uiMessage option"
  console :: "logEntry list"
  rng :: nat

text \<open>The values of the module-level declarations, before any function has run.\<close>

definition initialGame :: game where
  "initialGame = \<lparr> regions = (\<lambda>i. None), beansPlaced = [], xMarkers = [],
     autoXMarkers = [], solution = [], gameActive = False, message = None,
     console = [], rng = 0 \<rparr>"

section \<open>Random choices and the shuffle\<close>

text \<open>
  \<^verbatim>\<open>Math.floor(Math.random() * (i + 1))\<close> is some integer from 0 to i. The run's
  random choices are a parameter \<open>rnd\<close>: the k-th call yields \<open>rnd k\<close> reduced
  modulo the bound, so every sequence of choices is some \<open>rnd\<close>.
\<close>

definition randomBelow :: "(nat \<Rightarrow> nat) \<Rightarrow> nat \<Rightarrow> nat \<Rightarrow> nat" where
  "randomBelow rnd k m = rnd k mod m"

text \<open>\<^verbatim>\<open>[array[i], array[j]] = [array[j], array[i]]\<close>\<close>

definition swap :: "'a list \<Rightarrow> nat \<Rightarrow> nat \<Rightarrow> 'a list" where
  "swap xs i j = xs[i := xs ! j, j := xs ! i]"

text \<open>
  \<^verbatim>\<open>for (let i = array.length - 1; i > 0; i--) { const j = ...; swap }\<close>, from index
  \<open>i\<close> downwards; the result is the array and the advanced call counter.
\<close>

fun shuffleFrom :: "(nat \<Rightarrow> nat) \<Rightarrow> nat \<Rightarrow> 'a list \<Rightarrow> nat \<Rightarrow> 'a list \<times> nat" where
  "shuffleFrom rnd 0 xs k = (xs, k)"
| "shuffleFrom rnd (Suc i) xs k =
     (let j = randomBelow rnd k (Suc i + 1)
      in shuffleFrom rnd i (swap xs (Suc i) j) (Suc k))"

definition shuffleArray :: "(nat \<Rightarrow> nat) \<Rightarrow> 'a list \<Rightarrow> nat \<Rightarrow> 'a list \<times> nat" where
  "shuffleArray rnd xs k = shuffleFrom rnd (length xs - 1) xs k"

section \<open>generateValidSolution\<close>

text \<open>
  The inner loop over \<^verbatim>\<open>availableCols\<close>: the first column that is unused and whose
  cell touches no bean placed so far; \<open>None\<close> when the loop ends with
  \<^verbatim>\<open>placed\<close> still false. \<^verbatim>\<open>usedCols\<close> is a Set, kept as the list of its members.
\<close>

fun firstFit :: "int \<Rightarrow> int list \<Rightarrow> pos list \<Rightarrow> int list \<Rightarrow> int option" where
  "firstFit r [] sol usedCols = None"
| "firstFit r (c # cs) sol usedCols =
     (if c \<in> set usedCols then firstFit r cs sol usedCols
      else if isValidPlacement r c sol then Some c
      else firstFit r cs sol usedCols)"

text \<open>
  The loop over the rows: a row that cannot be filled ends the attempt
  (\<^verbatim>\<open>if (!placed) break\<close>) with the beans placed so far.
\<close>

fun placeRows :: "nat list \<Rightarrow> int list \<Rightarrow> pos list \<Rightarrow> int list \<Rightarrow> pos list" where
  "placeRows [] availableCols sol usedCols = sol"
| "placeRows (r # rs) availableCols sol usedCols =
     (case firstFit (int r) availableCols sol usedCols of
        None \<Rightarrow> sol
      | Some c \<Rightarrow>
          placeRows rs availableCols (sol @ [\<lparr>row = int r, col = c\<rparr>]) (usedCols @ [c]))"

definition maxAttempts :: nat where
  "maxAttempts = 1000"

text \<open>
  \<^verbatim>\<open>while (solution.length < gridSize && attempts < maxAttempts)\<close>: each attempt
  shuffles the columns 0..gridSize-1 afresh and fills the rows from an empty solution.
\<close>

function attemptLoop :: "(nat \<Rightarrow> nat) \<Rightarrow> pos list \<Rightarrow> nat \<Rightarrow> nat \<Rightarrow> pos list \<times> nat" where
  "attemptLoop rnd sol attempts k =
     (if length sol < gridSize \<and> attempts < maxAttempts then
        (let (availableCols, k') = shuffleArray rnd (map int [0..<gridSize]) k;
             sol' = placeRows [0..<gridSize] availableCols [] []
         in attemptLoop rnd sol' (attempts + 1) k')
      else (sol, k))"
  by pat_completeness auto
termination
  by (relation "measure (\<lambda>(rnd, sol, attempts, k). maxAttempts - attempts)") auto

declare attemptLoop.simps [simp del]

definition generateFallbackSolution :: "pos list" where
  "generateFallbackSolution =
     [\<lparr>row = 0, col = 0\<rparr>, \<lparr>row = 1, col = 4\<rparr>, \<lparr>row = 2, col = 7\<rparr>,
      \<lparr>row = 3, col = 5\<rparr>, \<lparr>row = 4, col = 2\<rparr>, \<lparr>row = 5, col = 6\<rparr>,
      \<lparr>row = 6, col = 1\<rparr>, \<lparr>row = 7, col = 3\<rparr>]"

text \<open>
  \<^verbatim>\<open>validateSolution\<close> changes nothing but the console: an error for every bean
  whose row was seen before, for every bean whose column was seen before, and for
  every touching pair.
\<close>

fun validateBeans :: "int list \<Rightarrow> int list \<Rightarrow> pos list \<Rightarrow> logEntry list" where
  "validateBeans rowsUsed colsUsed [] = []"
| "validateBeans rowsUsed colsUsed (b # bs) =
     (if row b \<in> set rowsUsed then [MultipleBeansInRow (row b)] else [])
     @ (if col b \<in> set colsUsed then [MultipleBeansInColumn (col b)] else [])
     @ validateBeans (rowsUsed @ [row b]) (colsUsed @ [col b]) bs"

text \<open>
  The nested loop \<^verbatim>\<open>for i ... for j = i + 1 ...\<close> over a bean list: the pairs, earlier
  bean first, whose row and column distances are both at most one.
\<close>

fun touchingPairs :: "('a pos_scheme) list \<Rightarrow> ('a pos_scheme \<times> 'a pos_scheme) list" where
  "touchingPairs [] = []"
| "touchingPairs (b1 # bs) =
     [(b1, b2). b2 \<leftarrow> bs, \<bar>row b1 - row b2\<bar> \<le> 1 \<and> \<bar>col b1 - col b2\<bar> \<le> 1]
     @ touchingPairs bs"

definition validateSolution :: "game \<Rightarrow> game" where
  "validateSolution g =
     g\<lparr>console := console g @ validateBeans [] [] (solution g)
          @ map (\<lambda>(b1, b2). BeansTouching b1 b2) (touchingPairs (solution g))\<rparr>"

definition generateValidSolution :: "(nat \<Rightarrow> nat) \<Rightarrow> game \<Rightarrow> game" where
  "generateValidSolution rnd g =
     (let (sol, k) = attemptLoop rnd [] 0 (rng g);
          g1 = g\<lparr>solution := sol, rng := k\<rparr>;
          g2 = (if length sol \<noteq> gridSize
                then g1\<lparr>console := console g1 @ [FailedToGenerateSolution],
                        solution := generateFallbackSolution\<rparr>
                else g1)
      in validateSolution g2)"

subsection \<open>The solution invariant\<close>

text \<open>Two beans are apart when they do not touch.\<close>

definition apart :: "pos \<Rightarrow> pos \<Rightarrow> bool" where
  "apart p q = (\<not> touching (row p) (col p) (row q) (col q))"

text \<open>
  The solution invariant: exactly gridSize positions, rows pairwise distinct, columns
  pairwise distinct, and no two different positions of the list touching.
\<close>

definition validSolution :: "pos list \<Rightarrow> bool" where
  "validSolution sol =
     (length sol = gridSize \<and> distinct (map row sol) \<and> distinct (map col sol) \<and>
      (\<forall>i j. i < length sol \<and> j < length sol \<and> i \<noteq> j \<longrightarrow> apart (sol ! i) (sol ! j)))"


lemma isValidPlacement_iff:
  "isValidPlacement r c bs = (\<forall>b \<in> set bs. \<not> (\<bar>row b - r\<bar> \<le> 1 \<and> \<bar>col b - c\<bar> \<le> 1))"
  by (induction bs) (auto simp: Let_def)

lemma firstFit_Some:
  "firstFit r cs sol used = Some c \<Longrightarrow> c \<in> set cs \<and> c \<notin> set used \<and> isValidPlacement r c sol"
  by (induction cs) (auto split: if_splits)

text \<open>The invariant of the row loop: what has been placed so far is consistent.\<close>

definition goodPartial :: "pos list \<Rightarrow> bool" where
  "goodPartial sol = (distinct (map row sol) \<and> distinct (map col sol) \<and> sorted_wrt apart sol)"

lemma apart_sym: "apart p q = apart q p"
  by (auto simp: apart_def touching_def)

lemma placeRows_good:
  assumes "sorted_wrt (<) rs" "\<forall>p \<in> set sol. \<forall>r \<in> set rs. row p < int r"
    "col ` set sol \<subseteq> set used" "goodPartial sol"
  shows "goodPartial (placeRows rs cols sol used)"
  using assms
proof (induction rs arbitrary: sol used)
  case Nil
  then show ?case by simp
next
  case (Cons r rs)
  show ?case
  proof (cases "firstFit (int r) cols sol used")
    case None
    with Cons.prems show ?thesis by simp
  next
    case (Some c)
    let ?p = "\<lparr>row = int r, col = c\<rparr>"
    from firstFit_Some[OF Some] have c: "c \<notin> set used" "isValidPlacement (int r) c sol" by auto
    have g: "goodPartial (sol @ [?p])"
      using Cons.prems c
      by (auto simp: goodPartial_def sorted_wrt_append isValidPlacement_iff apart_def touching_def)
    have "goodPartial (placeRows rs cols (sol @ [?p]) (used @ [c]))"
    proof (rule Cons.IH)
      show "sorted_wrt (<) rs" using Cons.prems by simp
      show "\<forall>p\<in>set (sol @ [?p]). \<forall>r\<in>set rs. row p < int r"
        using Cons.prems by auto
      show "col ` set (sol @ [?p]) \<subseteq> set (used @ [c])" using Cons.prems by auto
      show "goodPartial (sol @ [?p])" by (rule g)
    qed
    with Some show ?thesis by simp
  qed
qed

lemma placeRows_length:
  "length (placeRows rs cols sol used) \<le> length sol + length rs"
proof (induction rs arbitrary: sol used)
  case Nil
  then show ?case by simp
next
  case (Cons r rs)
  show ?case
  proof (cases "firstFit (int r) cols sol used")
    case None
    then show ?thesis by simp
  next
    case (Some c)
    with Cons.IH[of "sol @ [\<lparr>row = int r, col = c\<rparr>]" "used @ [c]"] show ?thesis by simp
  qed
qed




lemma goodPartial_Nil: "goodPartial []"
  by (simp add: goodPartial_def)

lemma attempt_good:
  "goodPartial (placeRows [0..<gridSize] cols [] [])"
  by (rule placeRows_good) (auto simp: goodPartial_Nil sorted_wrt_upt)

lemma attemptLoop_good:
  "goodPartial sol \<Longrightarrow> goodPartial (fst (attemptLoop rnd sol attempts k))"
proof (induction rnd sol attempts k rule: attemptLoop.induct)
  case (1 rnd sol attempts k)
  show ?case
  proof (cases "length sol < gridSize \<and> attempts < maxAttempts")
    case True
    obtain cols k' where sh: "shuffleArray rnd (map int [0..<gridSize]) k = (cols, k')"
      by (cases "shuffleArray rnd (map int [0..<gridSize]) k")
    from "1.IH"[OF True sh[symmetric] refl refl] attempt_good
    have "goodPartial (fst (attemptLoop rnd (placeRows [0..<gridSize] cols [] []) (attempts + 1) k'))"
      by simp
    with True sh show ?thesis by (simp add: attemptLoop.simps[of rnd sol attempts k])
  next
    case False
    with "1.prems" show ?thesis by (auto simp: attemptLoop.simps[of rnd sol attempts k])
  qed
qed

lemma attemptLoop_length:
  "length sol \<le> gridSize \<Longrightarrow> length (fst (attemptLoop rnd sol attempts k)) \<le> gridSize"
proof (induction rnd sol attempts k rule: attemptLoop.induct)
  case (1 rnd sol attempts k)
  show ?case
  proof (cases "length sol < gridSize \<and> attempts < maxAttempts")
    case True
    obtain cols k' where sh: "shuffleArray rnd (map int [0..<gridSize]) k = (cols, k')"
      by (cases "shuffleArray rnd (map int [0..<gridSize]) k")
    have "length (placeRows [0..<gridSize] cols [] []) \<le> gridSize"
      using placeRows_length[of "[0..<gridSize]" cols "[]" "[]"] by simp
    from "1.IH"[OF True sh[symmetric] refl refl this]
    show ?thesis using True sh by (simp add: attemptLoop.simps[of rnd sol attempts k])
  next
    case False
    with "1.prems" show ?thesis by (auto simp: attemptLoop.simps[of rnd sol attempts k])
  qed
qed


lemma goodPartial_valid:
  assumes "goodPartial sol" "length sol = gridSize"
  shows "validSolution sol"
proof -
  have "apart (sol ! i) (sol ! j)" if "i < length sol" "j < length sol" "i \<noteq> j" for i j
  proof (cases "i < j")
    case True
    with assms that show ?thesis by (auto simp: goodPartial_def sorted_wrt_iff_nth_less)
  next
    case False
    with that have "j < i" by simp
    with assms that have "apart (sol ! j) (sol ! i)"
      by (auto simp: goodPartial_def sorted_wrt_iff_nth_less)
    then show ?thesis by (simp add: apart_sym)
  qed
  with assms show ?thesis by (auto simp: validSolution_def goodPartial_def)
qed

lemma fallback_good: "goodPartial generateFallbackSolution"
  by (simp add: goodPartial_def generateFallbackSolution_def apart_def touching_def)

lemma fallback_length: "length generateFallbackSolution = gridSize"
  by (simp add: generateFallbackSolution_def gridSize_def)


lemma solution_generateValidSolution:
  "solution (generateValidSolution rnd g) =
     (let sol = fst (attemptLoop rnd [] 0 (rng g))
      in if length sol \<noteq> gridSize then generateFallbackSolution else sol)"
  by (simp add: generateValidSolution_def validateSolution_def Let_def split: prod.splits)

text \<open>
  C1. Whatever the random choices, and also when all 1000 attempts fail and the
  fallback pattern is used, the solution left by \<^verbatim>\<open>generateValidSolution\<close> has exactly
  gridSize positions, pairwise distinct rows, pairwise distinct columns, and no two
  positions within one row and one column of each other.
\<close>

theorem generateValidSolution_valid:
  "validSolution (solution (generateValidSolution rnd g))"
  using attemptLoop_good[OF goodPartial_Nil, of rnd 0 "rng g"]
  by (auto simp: solution_generateValidSolution Let_def fallback_good fallback_length
      intro: goodPartial_valid)

theorem generateValidSolution_valid_witness:
  "validSolution (solution (generateValidSolution (\<lambda>k. 0) initialGame)) \<and>
   map (\<lambda>p. (row p, col p)) (solution (generateValidSolution (\<lambda>k. 0) initialGame)) =
     [(0, 1), (1, 3), (2, 5), (3, 2), (4, 4), (5, 6), (6, 0), (7, 7)]"
proof -
  have "map (\<lambda>p. (row p, col p)) (solution (generateValidSolution (\<lambda>k. 0) initialGame)) =
     [(0, 1), (1, 3), (2, 5), (3, 2), (4, 4), (5, 6), (6, 0), (7, 7)]"
    by code_simp
  with generateValidSolution_valid[of "\<lambda>k. 0" initialGame] show ?thesis by simp
qed

section \<open>checkSolution\<close>

text \<open>The entries pushed on the local array \<^verbatim>\<open>errors\<close>, with the numbers their texts show.\<close>

datatype violation =
    RowError nat
  | ColumnError nat
  | RegionError nat
  | TouchingError int int int int

text \<open>
  Rules 1 to 4, in the order the code runs them: every row, column and region index
  whose number of beans is not one (the texts show the index plus one), then every
  touching pair, earlier bean first. A bean's region is read from \<^verbatim>\<open>regions\<close> at
  \<^verbatim>\<open>b.row * gridSize + b.col\<close>, not from the bean.
\<close>

definition rowErrors :: "bean list \<Rightarrow> violation list" where
  "rowErrors beans =
     concat (map (\<lambda>i. if length (filter (\<lambda>b. row b = int i) beans) \<noteq> 1
                        then [RowError (i + 1)] else []) [0..<gridSize])"

definition columnErrors :: "bean list \<Rightarrow> violation list" where
  "columnErrors beans =
     concat (map (\<lambda>j. if length (filter (\<lambda>b. col b = int j) beans) \<noteq> 1
                        then [ColumnError (j + 1)] else []) [0..<gridSize])"

definition regionErrors :: "regionArray \<Rightarrow> bean list \<Rightarrow> violation list" where
  "regionErrors regs beans =
     concat (map (\<lambda>r. if length (filter (\<lambda>b. regs (row b * int gridSize + col b) = Some (int r)) beans) \<noteq> 1
                        then [RegionError (r + 1)] else []) [0..<gridSize])"

definition touchingErrors :: "bean list \<Rightarrow> violation list" where
  "touchingErrors beans =
     map (\<lambda>(b1, b2). TouchingError (row b1 + 1) (col b1 + 1) (row b2 + 1) (col b2 + 1))
       (touchingPairs beans)"

definition ruleErrors :: "regionArray \<Rightarrow> bean list \<Rightarrow> violation list" where
  "ruleErrors regs beans =
     rowErrors beans @ columnErrors beans @ regionErrors regs beans @ touchingErrors beans"

text \<open>
  \<^verbatim>\<open>checkSolution\<close> returns nothing; the second component here is its local array
  \<^verbatim>\<open>errors\<close> when the run ends, and \<open>None\<close> when the function returned before
  creating it. Cell highlighting and the timer belong to the page and are left out.
\<close>

definition checkSolution :: "game \<Rightarrow> game \<times> violation list option" where
  "checkSolution g =
     (if \<not> gameActive g then (g, None)
      else if length (beansPlaced g) \<noteq> gridSize
      then (g\<lparr>message := Some (PlaceAllBeansFirst gridSize)\<rparr>, None)
      else
        (let errors = ruleErrors (regions g) (beansPlaced g)
         in if length errors = 0
            then (g\<lparr>gameActive := False, message := Some Congratulations\<rparr>, Some errors)
            else (g\<lparr>message := Some (FoundErrors (length errors))\<rparr>, Some errors)))"

text \<open>
  C10. Called on an active game whose number of placed beans differs from gridSize,
  \<^verbatim>\<open>checkSolution\<close> reports the message and returns: no violation is computed, and
  beansPlaced, xMarkers, autoXMarkers, solution, regions and gameActive are as before.
\<close>

theorem checkSolution_incomplete:
  assumes "gameActive g" and "length (beansPlaced g) \<noteq> gridSize"
  shows "snd (checkSolution g) = None \<and>
         message (fst (checkSolution g)) = Some (PlaceAllBeansFirst gridSize) \<and>
         beansPlaced (fst (checkSolution g)) = beansPlaced g \<and>
         xMarkers (fst (checkSolution g)) = xMarkers g \<and>
         autoXMarkers (fst (checkSolution g)) = autoXMarkers g \<and>
         solution (fst (checkSolution g)) = solution g \<and>
         regions (fst (checkSolution g)) = regions g \<and>
         gameActive (fst (checkSolution g)) = gameActive g"
  using assms by (simp add: checkSolution_def)

theorem checkSolution_incomplete_witness:
  "gameActive (initialGame\<lparr>gameActive := True\<rparr>) \<and>
   length (beansPlaced (initialGame\<lparr>gameActive := True\<rparr>)) \<noteq> gridSize \<and>
   snd (checkSolution (initialGame\<lparr>gameActive := True\<rparr>)) = None \<and>
   message (fst (checkSolution (initialGame\<lparr>gameActive := True\<rparr>)))
     = Some (PlaceAllBeansFirst gridSize) \<and>
   beansPlaced (fst (checkSolution (initialGame\<lparr>gameActive := True\<rparr>))) = []"
proof -
  have a: "gameActive (initialGame\<lparr>gameActive := True\<rparr>)" by simp
  have b: "length (beansPlaced (initialGame\<lparr>gameActive := True\<rparr>)) \<noteq> gridSize"
    by (simp add: initialGame_def gridSize_def)
  have c: "beansPlaced (initialGame\<lparr>gameActive := True\<rparr>) = []"
    by (simp add: initialGame_def)
  from checkSolution_incomplete[OF a b] a b c show ?thesis by simp
qed


subsection \<open>Order independence of the validation\<close>








definition close :: "'a pos_scheme \<Rightarrow> 'a pos_scheme \<Rightarrow> bool" where
  "close b1 b2 = (\<bar>row b1 - row b2\<bar> \<le> 1 \<and> \<bar>col b1 - col b2\<bar> \<le> 1)"




















section \<open>countSolutions\<close>

text \<open>
  The objects \<^verbatim>\<open>solve\<close> mutates: the array \<^verbatim>\<open>placedBeans\<close>, the Sets
  \<^verbatim>\<open>usedCols\<close> and \<^verbatim>\<open>usedRegions\<close> (kept as the lists of their members, in
  insertion order) and the captured counter \<^verbatim>\<open>solutionCount\<close>.
\<close>

record search =
  placedBeans :: "pos list"
  usedCols :: "nat list"
  usedRegions :: "int option list"
  solutionCount :: nat

text \<open>\<^verbatim>\<open>Set.prototype.add\<close> and \<^verbatim>\<open>Set.prototype.delete\<close> on such a list.\<close>

definition setAdd :: "'a list \<Rightarrow> 'a \<Rightarrow> 'a list" where
  "setAdd xs x = (if x \<in> set xs then xs else xs @ [x])"

definition setDelete :: "'a list \<Rightarrow> 'a \<Rightarrow> 'a list" where
  "setDelete xs x = removeAll x xs"

definition maxSolutions :: nat where
  "maxSolutions = 2"

text \<open>
  The loop \<^verbatim>\<open>for (const bean of placedBeans) { ... touchesExisting = true; break; }\<close>
\<close>

fun touchesExisting :: "int \<Rightarrow> int \<Rightarrow> pos list \<Rightarrow> bool" where
  "touchesExisting r c [] = False"
| "touchesExisting r c (bean # beans) =
     (let rowDiff = \<bar>row bean - r\<bar>; colDiff = \<bar>col bean - c\<bar>
      in if rowDiff \<le> 1 \<and> colDiff \<le> 1 then True else touchesExisting r c beans)"

text \<open>
  The three statements that place a bean before the recursive call, and the three
  that take it back afterwards.
\<close>

definition placeBean :: "search \<Rightarrow> nat \<Rightarrow> nat \<Rightarrow> int option \<Rightarrow> search" where
  "placeBean sv r c regionIndex =
     sv\<lparr>placedBeans := placedBeans sv @ [\<lparr>row = int r, col = int c\<rparr>],
        usedCols := setAdd (usedCols sv) c,
        usedRegions := setAdd (usedRegions sv) regionIndex\<rparr>"

definition removeBean :: "search \<Rightarrow> nat \<Rightarrow> int option \<Rightarrow> search" where
  "removeBean sv c regionIndex =
     sv\<lparr>placedBeans := butlast (placedBeans sv),
        usedCols := setDelete (usedCols sv) c,
        usedRegions := setDelete (usedRegions sv) regionIndex\<rparr>"

text \<open>
  \<open>solveFrom r c\<close> is the body of \<^verbatim>\<open>solve(r, ...)\<close> with its loop standing at
  column \<open>c\<close>; \<^verbatim>\<open>solve(r, ...)\<close> itself is \<open>solveFrom r 0\<close>. The program state and
  the search objects are passed through every call and returned as the call leaves
  them, next to the returned flag. Nothing bounds the recursion in the definition, so
  the result is an option and \<open>None\<close> stands for a call that does not return.
\<close>

partial_function (option) solveFrom ::
  "nat \<Rightarrow> nat \<Rightarrow> game \<times> search \<Rightarrow> (bool \<times> game \<times> search) option" where
  "solveFrom r c st =
     (let (g, sv) = st in
      if r = gridSize then
        (let sv1 = sv\<lparr>solutionCount := solutionCount sv + 1\<rparr>
         in Some (solutionCount sv1 \<ge> maxSolutions, g, sv1))
      else if c < gridSize then
        (if c \<in> set (usedCols sv) then solveFrom r (c + 1) (g, sv)
         else
           (let regionIndex = regions g (int r * int gridSize + int c) in
            if regionIndex \<in> set (usedRegions sv) then solveFrom r (c + 1) (g, sv)
            else if touchesExisting (int r) (int c) (placedBeans sv)
            then solveFrom r (c + 1) (g, sv)
            else
              Option.bind (solveFrom (r + 1) 0 (g, placeBean sv r c regionIndex))
                (\<lambda>(shouldStop, g1, sv1).
                   let sv2 = removeBean sv1 c regionIndex
                   in if shouldStop then Some (True, g1, sv2)
                      else solveFrom r (c + 1) (g1, sv2))))
      else Some (False, g, sv))"

declare solveFrom.simps [code]

text \<open>
  \<^verbatim>\<open>countSolutions\<close>: the search from row 0 on fresh objects; the result is the
  counter, next to the program state after the call.
\<close>

definition countSolutions :: "game \<Rightarrow> (nat \<times> game) option" where
  "countSolutions g =
     Option.bind
       (solveFrom 0 0 (g, \<lparr>placedBeans = [], usedCols = [], usedRegions = [], solutionCount = 0\<rparr>))
       (\<lambda>(shouldStop, g1, sv1). Some (solutionCount sv1, g1))"


subsection \<open>What the search computes\<close>

text \<open>
  During the search the beans stand in rows 0, 1, ... in order, so the search state is
  determined by the list \<open>cs\<close> of the columns chosen so far. \<open>okCol\<close> is the
  condition under which the loop places a bean in the next row at column \<open>c\<close>;
  \<open>goodCols\<close> says that every column of the list was placeable when it was chosen;
  \<open>ext\<close> is the set of full column lists that extend \<open>cs\<close>.
\<close>

definition cellRegion :: "regionArray \<Rightarrow> nat \<Rightarrow> nat \<Rightarrow> int option" where
  "cellRegion regs r c = regs (int r * int gridSize + int c)"

definition okCol :: "regionArray \<Rightarrow> nat list \<Rightarrow> nat \<Rightarrow> bool" where
  "okCol regs cs c =
     (\<forall>j < length cs. cs ! j \<noteq> c \<and> cellRegion regs j (cs ! j) \<noteq> cellRegion regs (length cs) c \<and>
        \<not> touching (int j) (int (cs ! j)) (int (length cs)) (int c))"

definition goodCols :: "regionArray \<Rightarrow> nat list \<Rightarrow> bool" where
  "goodCols regs cs = (\<forall>i < length cs. cs ! i < gridSize \<and> okCol regs (take i cs) (cs ! i))"

definition ext :: "regionArray \<Rightarrow> nat list \<Rightarrow> nat list set" where
  "ext regs cs = {full. length full = gridSize \<and> goodCols regs full \<and> take (length cs) full = cs}"

definition mkBeans :: "nat list \<Rightarrow> pos list" where
  "mkBeans cs = map (\<lambda>j. \<lparr>row = int j, col = int (cs ! j)\<rparr>) [0..<length cs]"

definition regsOf :: "regionArray \<Rightarrow> nat list \<Rightarrow> int option list" where
  "regsOf regs cs = map (\<lambda>j. cellRegion regs j (cs ! j)) [0..<length cs]"

definition svOf :: "regionArray \<Rightarrow> nat list \<Rightarrow> nat \<Rightarrow> search" where
  "svOf regs cs k = \<lparr>placedBeans = mkBeans cs, usedCols = cs, usedRegions = regsOf regs cs,
     solutionCount = k\<rparr>"

definition pending :: "regionArray \<Rightarrow> nat list \<Rightarrow> nat \<Rightarrow> nat" where
  "pending regs cs c =
     (if length cs = gridSize then 1
      else sum_list (map (\<lambda>c'. card (ext regs (cs @ [c']))) (filter (okCol regs cs) [c..<gridSize])))"

lemma mkBeans_snoc: "mkBeans (cs @ [c]) = mkBeans cs @ [\<lparr>row = int (length cs), col = int c\<rparr>]"
  by (simp add: mkBeans_def nth_append)

lemma regsOf_snoc: "regsOf regs (cs @ [c]) = regsOf regs cs @ [cellRegion regs (length cs) c]"
  by (simp add: regsOf_def nth_append)

lemma touchesExisting_iff:
  "touchesExisting r c bs = (\<exists>b \<in> set bs. \<bar>row b - r\<bar> \<le> 1 \<and> \<bar>col b - c\<bar> \<le> 1)"
  by (induction bs) (auto simp: Let_def)

lemma okCol_iff:
  "okCol regs cs c =
     (c \<notin> set cs \<and> cellRegion regs (length cs) c \<notin> set (regsOf regs cs) \<and>
      \<not> touchesExisting (int (length cs)) (int c) (mkBeans cs))"
proof -
  have 1: "(c \<notin> set cs) = (\<forall>j < length cs. cs ! j \<noteq> c)"
    by (auto simp: in_set_conv_nth)
  have 2: "(cellRegion regs (length cs) c \<notin> set (regsOf regs cs)) =
      (\<forall>j < length cs. cellRegion regs j (cs ! j) \<noteq> cellRegion regs (length cs) c)"
    by (force simp: regsOf_def)
  have 3: "(\<not> touchesExisting (int (length cs)) (int c) (mkBeans cs)) =
      (\<forall>j < length cs. \<not> touching (int j) (int (cs ! j)) (int (length cs)) (int c))"
    by (force simp: touchesExisting_iff mkBeans_def touching_def)
  show ?thesis unfolding 1 2 3 okCol_def by blast
qed

lemma goodCols_snoc:
  "goodCols regs (cs @ [c]) = (goodCols regs cs \<and> c < gridSize \<and> okCol regs cs c)"
  by (auto simp: goodCols_def nth_append less_Suc_eq)

lemma goodCols_Nil: "goodCols regs []"
  by (simp add: goodCols_def)

lemma setAdd_new: "x \<notin> set xs \<Longrightarrow> setDelete (setAdd xs x) x = xs"
  by (simp add: setAdd_def setDelete_def)

lemma setAdd_new': "x \<notin> set xs \<Longrightarrow> setAdd xs x = xs @ [x]"
  by (simp add: setAdd_def)

lemma placeBean_svOf:
  assumes "okCol regs cs c"
  shows "placeBean (svOf regs cs k) (length cs) c (cellRegion regs (length cs) c)
         = svOf regs (cs @ [c]) k"
  using assms by (simp add: placeBean_def svOf_def okCol_iff setAdd_new' mkBeans_snoc regsOf_snoc)

lemma removeBean_svOf:
  assumes "okCol regs cs c"
  shows "removeBean (svOf regs (cs @ [c]) k) c (cellRegion regs (length cs) c) = svOf regs cs k"
  using assms by (simp add: removeBean_def svOf_def okCol_iff mkBeans_snoc regsOf_snoc setDelete_def)

lemma ext_full: "length cs = gridSize \<Longrightarrow> goodCols regs cs \<Longrightarrow> ext regs cs = {cs}"
  by (auto simp: ext_def)

lemma finite_ext: "finite (ext regs cs)"
proof (rule finite_subset)
  show "ext regs cs \<subseteq> {xs. set xs \<subseteq> {..<gridSize} \<and> length xs = gridSize}"
    by (auto simp: ext_def goodCols_def in_set_conv_nth)
  show "finite {xs. set xs \<subseteq> {..<gridSize} \<and> length xs = gridSize}"
    by (rule finite_lists_length_eq) simp
qed

lemma ext_split:
  assumes "length cs < gridSize"
  shows "ext regs cs = (\<Union>c \<in> {c. c < gridSize \<and> okCol regs cs c}. ext regs (cs @ [c]))"
proof (intro set_eqI iffI)
  fix full assume f: "full \<in> ext regs cs"
  let ?c = "full ! length cs"
  from f assms have l: "length cs < length full" by (simp add: ext_def)
  from f l have "?c < gridSize" "okCol regs (take (length cs) full) ?c"
    by (auto simp: ext_def goodCols_def)
  moreover from f have t: "take (length cs) full = cs" by (simp add: ext_def)
  moreover have "take (Suc (length cs)) full = cs @ [?c]"
    using l t by (simp add: take_Suc_conv_app_nth)
  ultimately show "full \<in> (\<Union>c \<in> {c. c < gridSize \<and> okCol regs cs c}. ext regs (cs @ [c]))"
    using f by (auto simp: ext_def)
next
  fix full assume "full \<in> (\<Union>c \<in> {c. c < gridSize \<and> okCol regs cs c}. ext regs (cs @ [c]))"
  then obtain c where c: "full \<in> ext regs (cs @ [c])" by auto
  then have "take (Suc (length cs)) full = cs @ [c]" by (simp add: ext_def)
  then have "take (length cs) (take (Suc (length cs)) full) = cs" by simp
  then have "take (length cs) full = cs" by (simp add: min_def)
  with c show "full \<in> ext regs cs" by (simp add: ext_def)
qed

lemma ext_disjoint: "c \<noteq> c' \<Longrightarrow> ext regs (cs @ [c]) \<inter> ext regs (cs @ [c']) = {}"
  by (auto simp: ext_def)

lemma card_ext:
  assumes "length cs < gridSize"
  shows "card (ext regs cs) =
     sum_list (map (\<lambda>c. card (ext regs (cs @ [c]))) (filter (okCol regs cs) [0..<gridSize]))"
proof -
  let ?I = "{c. c < gridSize \<and> okCol regs cs c}"
  have "card (ext regs cs) = card (\<Union>c \<in> ?I. ext regs (cs @ [c]))"
    using ext_split[OF assms, of regs] by simp
  also have "\<dots> = (\<Sum>c \<in> ?I. card (ext regs (cs @ [c])))"
    by (rule card_UN_disjoint) (auto simp: finite_ext ext_disjoint)
  also have "?I = set (filter (okCol regs cs) [0..<gridSize])" by auto
  also have "(\<Sum>c \<in> set (filter (okCol regs cs) [0..<gridSize]). card (ext regs (cs @ [c]))) =
     sum_list (map (\<lambda>c. card (ext regs (cs @ [c]))) (filter (okCol regs cs) [0..<gridSize]))"
    by (rule sum_list_distinct_conv_sum_set[symmetric]) simp
  finally show ?thesis .
qed

lemma pending_0:
  "length cs \<le> gridSize \<Longrightarrow> goodCols regs cs \<Longrightarrow> pending regs cs 0 = card (ext regs cs)"
  by (cases "length cs = gridSize") (simp_all add: pending_def ext_full card_ext)

lemma pending_step:
  assumes "length cs < gridSize" "c < gridSize"
  shows "pending regs cs c =
     (if okCol regs cs c then card (ext regs (cs @ [c])) else 0) + pending regs cs (Suc c)"
  using assms by (simp add: pending_def upt_conv_Cons)

lemma pending_end: "length cs < gridSize \<Longrightarrow> pending regs cs gridSize = 0"
  by (simp add: pending_def)

lemma svOf_sel [simp]:
  "placedBeans (svOf regs cs k) = mkBeans cs" "usedCols (svOf regs cs k) = cs"
  "usedRegions (svOf regs cs k) = regsOf regs cs" "solutionCount (svOf regs cs k) = k"
  by (simp_all add: svOf_def)

lemma svOf_count [simp]: "(svOf regs cs k)\<lparr>solutionCount := k'\<rparr> = svOf regs cs k'"
  by (simp add: svOf_def)

lemma solveFrom_refine:
  assumes g: "regions g = regs"
  shows "length cs \<le> gridSize \<Longrightarrow> goodCols regs cs \<Longrightarrow> k < 2 \<Longrightarrow> c \<le> gridSize \<Longrightarrow>
     solveFrom (length cs) c (g, svOf regs cs k) =
       Some (2 \<le> k + pending regs cs c, g, svOf regs cs (min 2 (k + pending regs cs c)))"
proof (induction "gridSize - length cs" arbitrary: cs k c)
  case 0
  then have l: "length cs = gridSize" by simp
  have "min 2 (Suc k) = Suc k" using "0.prems" by simp
  then show ?case
    using l by (subst solveFrom.simps) (simp add: pending_def maxSolutions_def)
next
  case Suc': (Suc d)
  then have l: "length cs < gridSize" by simp
  have inner: "solveFrom (length cs) c (g, svOf regs cs k) =
       Some (2 \<le> k + pending regs cs c, g, svOf regs cs (min 2 (k + pending regs cs c)))"
    if "k < 2" "c \<le> gridSize" for c k
    using that
  proof (induction "gridSize - c" arbitrary: c k)
    case 0
    then have "c = gridSize" by simp
    with l "0.prems"(1) show ?case
      by (subst solveFrom.simps) (simp add: pending_end)
  next
    case (Suc e)
    then have c: "c < gridSize" by simp
    have next_col: "solveFrom (length cs) (Suc c) (g, svOf regs cs k') =
       Some (2 \<le> k' + pending regs cs (Suc c), g,
             svOf regs cs (min 2 (k' + pending regs cs (Suc c))))" if "k' < 2" for k'
      using Suc.hyps(1)[of "Suc c" k'] Suc.hyps(2) that c by simp
    show ?case
    proof (cases "okCol regs cs c")
      case False
      then have skip: "c \<in> set cs \<or> cellRegion regs (length cs) c \<in> set (regsOf regs cs) \<or>
          touchesExisting (int (length cs)) (int c) (mkBeans cs)"
        by (simp add: okCol_iff)
      have "solveFrom (length cs) c (g, svOf regs cs k) =
          solveFrom (length cs) (Suc c) (g, svOf regs cs k)"
        using skip l c g
        by (subst solveFrom.simps) (auto simp: cellRegion_def Let_def)
      with next_col[OF Suc.prems(1)] False l c show ?thesis
        by (simp add: pending_step)
    next
      case True
      let ?cs' = "cs @ [c]"
      let ?K = "card (ext regs ?cs')"
      have good': "goodCols regs ?cs'"
        using True c Suc'.prems(2) by (simp add: goodCols_snoc)
      have cr: "regions g (int (length cs) * int gridSize + int c) = cellRegion regs (length cs) c"
        using g by (simp add: cellRegion_def)
      have noskip: "c \<notin> set cs" "cellRegion regs (length cs) c \<notin> set (regsOf regs cs)"
          "\<not> touchesExisting (int (length cs)) (int c) (mkBeans cs)"
        using True by (simp_all add: okCol_iff)
      have rec: "solveFrom (Suc (length cs)) 0 (g, svOf regs ?cs' k) =
          Some (2 \<le> k + ?K, g, svOf regs ?cs' (min 2 (k + ?K)))"
        using Suc'.hyps(1)[of ?cs' k 0] Suc'.hyps(2) l good' Suc.prems(1)
        by (simp add: pending_0)
      have unfold: "solveFrom (length cs) c (g, svOf regs cs k) =
          (if 2 \<le> k + ?K then Some (True, g, svOf regs cs (min 2 (k + ?K)))
           else solveFrom (length cs) (Suc c) (g, svOf regs cs (min 2 (k + ?K))))"
        using l c noskip
        by (subst solveFrom.simps)
           (simp add: cr Let_def placeBean_svOf[OF True] rec removeBean_svOf[OF True])
      show ?thesis
      proof (cases "2 \<le> k + ?K")
        case True
        then show ?thesis using unfold l c \<open>okCol regs cs c\<close> by (simp add: pending_step)
      next
        case False
        then have "min 2 (k + ?K) = k + ?K" "k + ?K < 2" by simp_all
        with False unfold next_col[of "k + ?K"] l c \<open>okCol regs cs c\<close> show ?thesis
          by (simp add: pending_step add.assoc)
      qed
    qed
  qed
  from inner[OF Suc'.prems(3,4)] show ?case .
qed



lemma countSolutions_result:
  "countSolutions g = Some (min 2 (card (ext (regions g) [])), g)"
proof -
  have s: "svOf (regions g) [] 0 =
      \<lparr>placedBeans = [], usedCols = [], usedRegions = [], solutionCount = 0\<rparr>"
    by (simp add: svOf_def mkBeans_def regsOf_def)
  from solveFrom_refine[of g "regions g" "[]" 0 0]
  show ?thesis
    by (simp add: countSolutions_def s[symmetric] goodCols_Nil pending_0)
qed

subsection \<open>The placements the search counts\<close>

text \<open>
  A region map in the sense of the data model: every cell of the grid carries a region
  id from 0 to gridSize - 1.
\<close>

definition wellFormed :: "regionArray \<Rightarrow> bool" where
  "wellFormed regs =
     (\<forall>r < gridSize. \<forall>c < gridSize. \<exists>k < gridSize. regs (int r * int gridSize + int c) = Some (int k))"

text \<open>
  A placement of gridSize markers that satisfies the four constraints, listed by row:
  one marker in each row, exactly one in each column, exactly one in each region, and
  no two markers within one row and one column of each other.
\<close>

definition validPlacement :: "regionArray \<Rightarrow> pos list \<Rightarrow> bool" where
  "validPlacement regs ps =
     (length ps = gridSize \<and> map row ps = map int [0..<gridSize] \<and>
      (\<forall>c < gridSize. length (filter (\<lambda>b. col b = int c) ps) = 1) \<and>
      (\<forall>k < gridSize.
         length (filter (\<lambda>b. regs (row b * int gridSize + col b) = Some (int k)) ps) = 1) \<and>
      (\<forall>i j. i < length ps \<and> j < length ps \<and> i \<noteq> j \<longrightarrow> apart (ps ! i) (ps ! j)))"

lemma count_list_map_filter: "count_list (map f ys) k = length (filter (\<lambda>y. f y = k) ys)"
  by (induction ys) auto

lemma distinct_count_one: "distinct xs \<Longrightarrow> x \<in> set xs \<Longrightarrow> count_list xs x = 1"
  by (induction xs) (auto simp: count_list_0_iff)

lemma count_one_iff:
  assumes "finite K" "length xs = card K"
  shows "(\<forall>k \<in> K. count_list xs k = 1) = (distinct xs \<and> set xs = K)"
proof
  assume "distinct xs \<and> set xs = K"
  then show "\<forall>k \<in> K. count_list xs k = 1" by (auto simp: distinct_count_one)
next
  assume a: "\<forall>k \<in> K. count_list xs k = 1"
  have sub: "K \<subseteq> set xs"
  proof
    fix k assume "k \<in> K"
    with a have "count_list xs k \<noteq> 0" by simp
    then show "k \<in> set xs" by (simp add: count_list_0_iff)
  qed
  have "sum (count_list xs) (set xs) = length xs" by (rule sum_count_set) simp_all
  moreover have "sum (count_list xs) (set xs) = sum (count_list xs) K + sum (count_list xs) (set xs - K)"
    using sub by (simp add: sum.subset_diff)
  moreover have "sum (count_list xs) K = card K" using a by simp
  ultimately have "sum (count_list xs) (set xs - K) = 0" using assms(2) by simp
  then have "\<forall>x \<in> set xs - K. count_list xs x = 0" by simp
  then have "set xs - K = {}" by (auto simp: count_list_0_iff)
  with sub have eq: "set xs = K" by auto
  then have "card (set xs) = length xs" using assms(2) by simp
  then have "distinct xs" by (rule card_distinct)
  with eq show "distinct xs \<and> set xs = K" by simp
qed

lemma goodCols_alt:
  "goodCols regs cs =
     ((\<forall>i < length cs. cs ! i < gridSize) \<and>
      (\<forall>i < length cs. \<forall>j < i. cs ! j \<noteq> cs ! i \<and>
          cellRegion regs j (cs ! j) \<noteq> cellRegion regs i (cs ! i) \<and>
          \<not> touching (int j) (int (cs ! j)) (int i) (int (cs ! i))))"
  by (auto simp: goodCols_def okCol_def)

lemma distinct_nth_less:
  "distinct xs = (\<forall>i < length xs. \<forall>j < i. xs ! j \<noteq> xs ! i)"
proof
  assume "distinct xs"
  then show "\<forall>i < length xs. \<forall>j < i. xs ! j \<noteq> xs ! i"
    by (auto simp: distinct_conv_nth)
next
  assume a: "\<forall>i < length xs. \<forall>j < i. xs ! j \<noteq> xs ! i"
  have "xs ! i \<noteq> xs ! j" if "i < length xs" "j < length xs" "i \<noteq> j" for i j
  proof (cases "i < j")
    case True
    with a that show ?thesis by metis
  next
    case False
    with that have "j < i" by simp
    with a that show ?thesis by metis
  qed
  then show "distinct xs" by (simp add: distinct_conv_nth)
qed

lemma map_col_mkBeans: "map (\<lambda>b. nat (col b)) (mkBeans cs) = cs"
  by (simp add: mkBeans_def map_nth o_def)

lemma map_reg_mkBeans:
  "map (\<lambda>b. regs (row b * int gridSize + col b)) (mkBeans cs) = regsOf regs cs"
  by (simp add: mkBeans_def regsOf_def cellRegion_def o_def)

lemma filter_mkBeans_col:
  "length (filter (\<lambda>b. col b = int c) (mkBeans cs)) = count_list cs c"
proof -
  have "filter (\<lambda>b. col b = int c) (mkBeans cs) = filter (\<lambda>b. nat (col b) = c) (mkBeans cs)"
    by (rule filter_cong) (auto simp: mkBeans_def)
  then show ?thesis
    using count_list_map_filter[of "\<lambda>b. nat (col b)" "mkBeans cs" c]
    by (simp add: map_col_mkBeans)
qed

lemma filter_mkBeans_reg:
  "length (filter (\<lambda>b. regs (row b * int gridSize + col b) = v) (mkBeans cs))
     = count_list (regsOf regs cs) v"
  using count_list_map_filter[of "\<lambda>b. regs (row b * int gridSize + col b)" "mkBeans cs" v]
  by (simp add: map_reg_mkBeans)

lemma cols_one_each:
  assumes "length cs = gridSize"
  shows "(\<forall>c < gridSize. length (filter (\<lambda>b. col b = int c) (mkBeans cs)) = 1)
     = (distinct cs \<and> (\<forall>i < length cs. cs ! i < gridSize))"
proof -
  have "(\<forall>c \<in> {..<gridSize}. count_list cs c = 1) = (distinct cs \<and> set cs = {..<gridSize})"
    by (rule count_one_iff) (simp_all add: assms)
  moreover have "(distinct cs \<and> set cs = {..<gridSize}) =
      (distinct cs \<and> (\<forall>i < length cs. cs ! i < gridSize))"
  proof
    assume a: "distinct cs \<and> (\<forall>i < length cs. cs ! i < gridSize)"
    then have "set cs \<subseteq> {..<gridSize}" by (auto simp: in_set_conv_nth)
    moreover have "card (set cs) = card {..<gridSize}"
      using a assms by (simp add: distinct_card)
    ultimately have "set cs = {..<gridSize}" by (intro card_subset_eq) simp_all
    with a show "distinct cs \<and> set cs = {..<gridSize}" by simp
  next
    assume a: "distinct cs \<and> set cs = {..<gridSize}"
    have "cs ! i < gridSize" if "i < length cs" for i
    proof -
      from that have "cs ! i \<in> set cs" by (rule nth_mem)
      with a show ?thesis by simp
    qed
    with a show "distinct cs \<and> (\<forall>i < length cs. cs ! i < gridSize)" by simp
  qed
  ultimately show ?thesis by (simp add: filter_mkBeans_col Ball_def)
qed

definition regionIds :: "int option set" where
  "regionIds = (\<lambda>k. Some (int k)) ` {..<gridSize}"

lemma card_regionIds: "card regionIds = gridSize"
  unfolding regionIds_def by (subst card_image) (auto simp: inj_on_def)

lemma regs_one_each:
  assumes "length cs = gridSize" "set (regsOf regs cs) \<subseteq> regionIds"
  shows "(\<forall>k < gridSize.
            length (filter (\<lambda>b. regs (row b * int gridSize + col b) = Some (int k)) (mkBeans cs)) = 1)
     = distinct (regsOf regs cs)"
proof -
  have l: "length (regsOf regs cs) = card regionIds"
    using assms(1) by (simp add: regsOf_def card_regionIds)
  have "(\<forall>k \<in> regionIds. count_list (regsOf regs cs) k = 1) =
      (distinct (regsOf regs cs) \<and> set (regsOf regs cs) = regionIds)"
    by (rule count_one_iff) (simp_all add: l regionIds_def)
  moreover have "set (regsOf regs cs) = regionIds" if "distinct (regsOf regs cs)"
    using assms(2)
  proof (rule card_subset_eq[rotated])
    show "finite regionIds" by (simp add: regionIds_def)
    show "card (set (regsOf regs cs)) = card regionIds" using that l by (simp add: distinct_card)
  qed
  ultimately have "(\<forall>k \<in> regionIds. count_list (regsOf regs cs) k = 1) =
      distinct (regsOf regs cs)" by blast
  moreover have "(\<forall>k \<in> regionIds. count_list (regsOf regs cs) k = 1) =
      (\<forall>k < gridSize. count_list (regsOf regs cs) (Some (int k)) = 1)"
    by (auto simp: regionIds_def)
  ultimately show ?thesis by (simp add: filter_mkBeans_reg)
qed

lemma regsOf_wellFormed:
  assumes "wellFormed regs" "length cs \<le> gridSize" "\<forall>i < length cs. cs ! i < gridSize"
  shows "set (regsOf regs cs) \<subseteq> regionIds"
proof
  fix v assume "v \<in> set (regsOf regs cs)"
  then obtain j where j: "j < length cs" "v = cellRegion regs j (cs ! j)"
    by (auto simp: regsOf_def)
  with assms have "\<exists>k < gridSize. regs (int j * int gridSize + int (cs ! j)) = Some (int k)"
    unfolding wellFormed_def by (meson less_le_trans)
  with j show "v \<in> regionIds" by (auto simp: regionIds_def cellRegion_def)
qed

lemma validPlacement_mkBeans:
  assumes wf: "wellFormed regs" and l: "length cs = gridSize"
  shows "validPlacement regs (mkBeans cs) = goodCols regs cs"
proof -
  have len: "length (mkBeans cs) = gridSize" using l by (simp add: mkBeans_def)
  have rows: "map row (mkBeans cs) = map int [0..<gridSize]"
    using l by (simp add: mkBeans_def o_def)
  have ap: "(\<forall>i j. i < length (mkBeans cs) \<and> j < length (mkBeans cs) \<and> i \<noteq> j \<longrightarrow>
              apart (mkBeans cs ! i) (mkBeans cs ! j)) =
        (\<forall>i < length cs. \<forall>j < i. \<not> touching (int j) (int (cs ! j)) (int i) (int (cs ! i)))"
    (is "?L = ?R")
  proof
    assume ?L
    then show ?R by (auto simp: mkBeans_def apart_def)
  next
    assume r: ?R
    have "apart (mkBeans cs ! i) (mkBeans cs ! j)" if "i < length cs" "j < length cs" "i \<noteq> j" for i j
    proof (cases "i < j")
      case True
      with r that have "\<not> touching (int i) (int (cs ! i)) (int j) (int (cs ! j))" by simp
      with that show ?thesis by (simp add: mkBeans_def apart_def)
    next
      case False
      with that have "j < i" by simp
      with r that have "\<not> touching (int j) (int (cs ! j)) (int i) (int (cs ! i))" by simp
      with that show ?thesis by (simp add: mkBeans_def apart_def touching_def abs_minus_commute)
    qed
    then show ?L by (simp add: mkBeans_def)
  qed
  show ?thesis
  proof (cases "\<forall>i < length cs. cs ! i < gridSize")
    case True
    have sub: "set (regsOf regs cs) \<subseteq> regionIds"
      using wf l True by (intro regsOf_wellFormed) simp_all
    have dr: "distinct (regsOf regs cs) =
        (\<forall>i < length cs. \<forall>j < i. cellRegion regs j (cs ! j) \<noteq> cellRegion regs i (cs ! i))"
      by (simp add: distinct_nth_less regsOf_def)
    show ?thesis
      unfolding validPlacement_def goodCols_alt cols_one_each[OF l] regs_one_each[OF l sub]
        ap dr distinct_nth_less[of cs]
      using len rows True by auto
  next
    case False
    then show ?thesis
      unfolding validPlacement_def goodCols_alt cols_one_each[OF l] by auto
  qed
qed

lemma validPlacement_cols:
  assumes "validPlacement regs ps" "b \<in> set ps"
  shows "0 \<le> col b"
proof -
  let ?K = "int ` {..<gridSize}"
  have l: "length (map col ps) = card ?K"
    using assms(1) by (simp add: validPlacement_def card_image)
  have "\<forall>k \<in> ?K. count_list (map col ps) k = 1"
    using assms(1) by (auto simp: validPlacement_def count_list_map_filter)
  then have "distinct (map col ps) \<and> set (map col ps) = ?K"
    using count_one_iff[of ?K "map col ps"] l by simp
  with assms(2) have "col b \<in> ?K" by auto
  then show ?thesis by auto
qed

lemma validPlacement_is_mkBeans:
  assumes "validPlacement regs ps"
  shows "ps = mkBeans (map (\<lambda>b. nat (col b)) ps)"
proof (rule nth_equalityI)
  show "length ps = length (mkBeans (map (\<lambda>b. nat (col b)) ps))" by (simp add: mkBeans_def)
next
  fix i assume i: "i < length ps"
  from assms have m: "map row ps = map int [0..<gridSize]" and l: "length ps = gridSize"
    by (simp_all add: validPlacement_def)
  have "row (ps ! i) = map row ps ! i" using i by simp
  also have "\<dots> = map int [0..<gridSize] ! i" by (simp only: m)
  also have "\<dots> = int i" using i l by simp
  finally have r: "row (ps ! i) = int i" .
  from i have "0 \<le> col (ps ! i)" by (intro validPlacement_cols[OF assms]) simp
  with r i show "ps ! i = mkBeans (map (\<lambda>b. nat (col b)) ps) ! i"
    by (simp add: mkBeans_def)
qed

lemma inj_mkBeans: "inj mkBeans"
  by (rule inj_on_inverseI[where g = "map (\<lambda>b. nat (col b))"]) (simp add: map_col_mkBeans)

lemma validPlacement_set:
  assumes "wellFormed regs"
  shows "{ps. validPlacement regs ps} = mkBeans ` ext regs []"
proof (intro set_eqI iffI)
  fix ps assume "ps \<in> {ps. validPlacement regs ps}"
  then have v: "validPlacement regs ps" by simp
  let ?cs = "map (\<lambda>b. nat (col b)) ps"
  have ps: "ps = mkBeans ?cs" by (rule validPlacement_is_mkBeans[OF v])
  have l: "length ?cs = gridSize" using v by (simp add: validPlacement_def)
  from v ps have "validPlacement regs (mkBeans ?cs)" by simp
  then have "goodCols regs ?cs" by (simp add: validPlacement_mkBeans[OF assms l])
  with l have "?cs \<in> ext regs []" by (simp add: ext_def)
  with ps show "ps \<in> mkBeans ` ext regs []" by blast
next
  fix ps assume "ps \<in> mkBeans ` ext regs []"
  then obtain cs where cs: "ps = mkBeans cs" "length cs = gridSize" "goodCols regs cs"
    by (auto simp: ext_def)
  then show "ps \<in> {ps. validPlacement regs ps}"
    by (simp add: validPlacement_mkBeans[OF assms])
qed

lemma card_validPlacement:
  assumes "wellFormed regs"
  shows "card {ps. validPlacement regs ps} = card (ext regs [])"
  unfolding validPlacement_set[OF assms]
  by (rule card_image) (rule inj_on_subset[OF inj_mkBeans], simp)

text \<open>
  C4. For every region map, \<^verbatim>\<open>countSolutions\<close> returns a number from 0 to 2: the exact
  number of placements that satisfy the four constraints when that number is 0 or 1,
  and 2 when there are at least two of them.
\<close>

theorem countSolutions_counts:
  assumes "wellFormed (regions g)"
  shows "\<exists>n. map_option fst (countSolutions g) = Some n \<and> n \<le> 2 \<and>
           (card {ps. validPlacement (regions g) ps} \<le> 1 \<longrightarrow>
              n = card {ps. validPlacement (regions g) ps}) \<and>
           (2 \<le> card {ps. validPlacement (regions g) ps} \<longrightarrow> n = 2)"
  by (auto simp: countSolutions_result card_validPlacement[OF assms])

text \<open>An example region map: region k is row k.\<close>

definition rowsMap :: regionArray where
  "rowsMap = (\<lambda>i. if 0 \<le> i \<and> i < 64 then Some (i div 8) else None)"

lemma wellFormed_rowsMap: "wellFormed rowsMap"
  unfolding wellFormed_def
proof (intro allI impI)
  fix r c assume "r < gridSize" "c < gridSize"
  then have "r < gridSize \<and> rowsMap (int r * int gridSize + int c) = Some (int r)"
    by (simp add: rowsMap_def gridSize_def)
  then show "\<exists>k<gridSize. rowsMap (int r * int gridSize + int c) = Some (int k)" by blast
qed

theorem countSolutions_counts_witness:
  "wellFormed (regions (initialGame\<lparr>regions := rowsMap\<rparr>)) \<and>
   map_option fst (countSolutions (initialGame\<lparr>regions := rowsMap\<rparr>)) = Some 2 \<and>
   2 \<le> card {ps. validPlacement (regions (initialGame\<lparr>regions := rowsMap\<rparr>)) ps}"
proof -
  have w: "wellFormed (regions (initialGame\<lparr>regions := rowsMap\<rparr>))"
    by (simp add: wellFormed_rowsMap)
  have e: "map_option fst (countSolutions (initialGame\<lparr>regions := rowsMap\<rparr>)) = Some 2"
    by code_simp
  from countSolutions_counts[OF w] e
  have "2 \<le> card {ps. validPlacement (regions (initialGame\<lparr>regions := rowsMap\<rparr>)) ps}"
    by (metis Suc_1 not_less_eq_eq option.inject nat_le_linear)
  with w e show ?thesis by simp
qed


text \<open>
  C9. \<^verbatim>\<open>countSolutions\<close> returns, and the solution array and the regions array after
  the call are the ones before it, in every program state.
\<close>

theorem countSolutions_frame:
  "\<exists>n g'. countSolutions g = Some (n, g') \<and> solution g' = solution g \<and> regions g' = regions g"
  by (simp add: countSolutions_result)

theorem countSolutions_frame_witness:
  "\<exists>n g'. countSolutions (initialGame\<lparr>regions := rowsMap\<rparr>) = Some (n, g') \<and>
     solution g' = solution (initialGame\<lparr>regions := rowsMap\<rparr>) \<and>
     regions g' = regions (initialGame\<lparr>regions := rowsMap\<rparr>)"
  by (rule countSolutions_frame)



section \<open>isRegionConnected\<close>













subsection \<open>Four-connected regions\<close>

















subsection \<open>The flood fill computes the reachable cells\<close>
























section \<open>generateRegionsFromSolution\<close>

























subsection \<open>Invariants of the growth\<close>

text \<open>
  A cell is assigned when it carries a region id from 0 to gridSize - 1. During the
  growth every cell of the grid is unassigned (-1) or assigned, every seed cell keeps
  the number of its bean, there are gridSize queues of at most one cell each, and
  \<^verbatim>\<open>unassignedCount\<close> is the number of unassigned cells.
\<close>

definition assigned :: "regionArray \<Rightarrow> int \<Rightarrow> bool" where
  "assigned regs i = (\<exists>k < gridSize. regs i = Some (int k))"












lemma assigned_not_unassigned: "assigned regs i \<Longrightarrow> regs i \<noteq> Some (- 1)"
  by (auto simp: assigned_def)










































section \<open>The result of generateRegionsFromSolution\<close>


subsection \<open>Random sources that always answer the same number\<close>















subsection \<open>The region maps returned\<close>









subsection \<open>The connectivity check and the regeneration path\<close>




end
